theory Spec2Isabelle
  imports Complex_Main "HOL-Library.Signed_Division"
begin

section \<open>The distributed mutex of dmutex.go\<close>

text \<open>
  The package-level configuration \<open>n\<close> (number of peers, a Go \<open>int\<close>) and \<open>nodes\<close> (their
  addresses) is declared outside dmutex.go; every function below takes what it reads of it
  as a parameter. Go's \<open>/\<close> and \<open>%\<close> on \<open>int\<close> truncate towards zero: they are \<open>sdiv\<close> and
  \<open>smod\<close>. No count in this file can reach the range of a machine integer, so \<open>int\<close> is
  unbounded here.

  A run-time panic is a value of type \<open>error\<close>, returned on the left of a sum.
\<close>

datatype error =
    UnlockOfUnlocked      \<comment> \<open>\<open>panic("dsync: unlock of unlocked distributed mutex")\<close>\<close>
  | IndexOutOfRange       \<comment> \<open>an index expression outside its slice\<close>
  | MakeSliceLen          \<comment> \<open>\<open>make([]T, n)\<close> with a negative length\<close>
  | MakeChanSize          \<comment> \<open>\<open>make(chan T, k)\<close> with a negative capacity\<close>

text \<open>
  \<open>type DMutex struct\<close>. A client handle \<open>*rpc.Client\<close> is a value of \<open>'c option\<close>, \<open>None\<close>
  the nil pointer; a nil slice is the empty list. The local gate \<open>m\<close> only serialises
  \<open>Lock\<close> calls of one instance and has no counterpart in a sequential model.
\<close>

record 'c DMutex =
  Name :: string
  locks :: "bool list"
  clnts :: "'c option list"

text \<open>\<open>type Granted struct\<close>: one reply of a peer to the lock request.\<close>

record Granted =
  index :: nat
  locked :: bool

text \<open>
  What the coordinator of one attempt observes, in the order it observes it: a reply taken
  from the channel, or the expiry of the timer.
\<close>

datatype event = Reply Granted | Timeout

text \<open>
  \<open>go sendRelease(c, name)\<close> starts the release RPC and does not wait for it. The model
  records each dispatch, in program order, as the handle and the lock name it was given.
\<close>

type_synonym 'c release = "'c option \<times> string"

text \<open>The zero value of the struct with a name: a mutex that was never locked.\<close>

definition newDMutex :: "string \<Rightarrow> 'c DMutex" where
  "newDMutex nm = \<lparr>Name = nm, locks = [], clnts = []\<rparr>"

text \<open>The built-in \<open>copy(dst, src)\<close>: the first \<open>min (len dst) (len src)\<close> elements are overwritten.\<close>

definition copy :: "'a list \<Rightarrow> 'a list \<Rightarrow> 'a list" where
  "copy dst src = take (length dst) src @ drop (length src) dst"

subsection \<open>quorumMet\<close>

definition quorumMet :: "int \<Rightarrow> bool list \<Rightarrow> bool" where
  "quorumMet n lks =
     (let count = fold (\<lambda>lckd count. if lckd then count + 1 else count) lks (0::int)
      in count \<ge> n sdiv 2 + 1)"

subsection \<open>releaseAll\<close>

text \<open>
  The state of an attempt is the grant vector together with the releases dispatched so far.
  The loop runs over \<open>lock = 0, \<dots>, n - 1\<close>.
\<close>

fun releaseAll_loop ::
  "'c option list \<Rightarrow> string \<Rightarrow> nat list \<Rightarrow> bool list \<times> 'c release list
     \<Rightarrow> error + (bool list \<times> 'c release list)" where
  "releaseAll_loop cs nm [] st = Inr st"
| "releaseAll_loop cs nm (lock # rest) (lks, sent) =
     (if \<not> lock < length lks then Inl IndexOutOfRange
      else if lks ! lock then
        (if \<not> lock < length cs then Inl IndexOutOfRange
         else releaseAll_loop cs nm rest (lks[lock := False], sent @ [(cs ! lock, nm)]))
      else releaseAll_loop cs nm rest (lks, sent))"

definition releaseAll ::
  "int \<Rightarrow> 'c option list \<Rightarrow> string \<Rightarrow> bool list \<times> 'c release list
     \<Rightarrow> error + (bool list \<times> 'c release list)" where
  "releaseAll n cs nm st = releaseAll_loop cs nm [0 ..< nat n] st"

subsection \<open>lock: one acquisition attempt\<close>

text \<open>
  The decision phase, \<open>for ; i < n; i++ { select \<dots> }\<close>. An iteration takes the next event.
  The timer always fires, so a coordinator for which no further reply arrives (the empty
  trace) takes the timeout branch. Both \<open>done = true\<close> branches leave the loop through
  \<open>break\<close>, which skips \<open>i++\<close>. The result is the value of \<open>i\<close>, the events not yet
  consumed and the attempt state.
\<close>

definition on_timeout ::
  "int \<Rightarrow> 'c option list \<Rightarrow> string \<Rightarrow> bool list \<times> 'c release list
     \<Rightarrow> error + (bool list \<times> 'c release list)" where
  "on_timeout n cs nm st = (if \<not> quorumMet n (fst st) then releaseAll n cs nm st else Inr st)"

fun lock_decision ::
  "int \<Rightarrow> 'c option list \<Rightarrow> string \<Rightarrow> nat \<Rightarrow> event list \<Rightarrow> bool list \<times> 'c release list
     \<Rightarrow> error + (nat \<times> event list \<times> bool list \<times> 'c release list)" where
  "lock_decision n cs nm i [] st =
     (if int i < n then
        (case on_timeout n cs nm st of Inl e \<Rightarrow> Inl e | Inr st' \<Rightarrow> Inr (i, [], st'))
      else Inr (i, [], st))"
| "lock_decision n cs nm i (Timeout # rest) st =
     (if int i < n then
        (case on_timeout n cs nm st of Inl e \<Rightarrow> Inl e | Inr st' \<Rightarrow> Inr (i, rest, st'))
      else Inr (i, Timeout # rest, st))"
| "lock_decision n cs nm i (Reply grant # rest) st =
     (if int i < n then
        (if locked grant then
           (if index grant < length (fst st)
            then lock_decision n cs nm (i + 1) rest ((fst st)[index grant := True], snd st)
            else Inl IndexOutOfRange)
         else
           (case releaseAll n cs nm st of Inl e \<Rightarrow> Inl e | Inr st' \<Rightarrow> Inr (i, rest, st')))
      else Inr (i, Reply grant # rest, st))"

text \<open>The replies among the events; the drain phase receives from the channel only.\<close>

fun replies :: "event list \<Rightarrow> Granted list" where
  "replies [] = []"
| "replies (Reply g # evs) = g # replies evs"
| "replies (Timeout # evs) = replies evs"

text \<open>
  The drain phase, \<open>for ; i < n; i++ { grantToBeReleased := <-ch \<dots> }\<close>. It does not
  touch the grant vector. When no reply is left the receive blocks for ever and the phase
  has no further effect.
\<close>

fun lock_drain ::
  "int \<Rightarrow> 'c option list \<Rightarrow> string \<Rightarrow> nat \<Rightarrow> Granted list \<Rightarrow> 'c release list
     \<Rightarrow> error + 'c release list" where
  "lock_drain n cs nm i [] sent = Inr sent"
| "lock_drain n cs nm i (grantToBeReleased # rest) sent =
     (if int i < n then
        (if locked grantToBeReleased then
           (if index grantToBeReleased < length cs
            then lock_drain n cs nm (i + 1) rest (sent @ [(cs ! index grantToBeReleased, nm)])
            else Inl IndexOutOfRange)
         else lock_drain n cs nm (i + 1) rest sent)
      else Inr sent)"

text \<open>
  \<open>lock\<close> returns \<open>quorum\<close>, computed between the two phases. The model returns with it the
  grant vector behind \<open>locks\<close> and every release the attempt dispatches, those of the drain
  phase included (they are dispatched after \<open>wg.Done()\<close>, possibly after \<open>lock\<close> returned).
\<close>

definition lock ::
  "int \<Rightarrow> 'c option list \<Rightarrow> bool list \<Rightarrow> string \<Rightarrow> event list
     \<Rightarrow> error + (bool \<times> bool list \<times> 'c release list)" where
  "lock n cs lks nm evs =
     (if n sdiv 2 + 1 < 0 then Inl MakeChanSize
      else case lock_decision n cs nm 0 evs (lks, []) of
        Inl e \<Rightarrow> Inl e
      | Inr (i, rest, lks', sent) \<Rightarrow>
          (let quorum = quorumMet n lks'
           in case lock_drain n cs nm i (replies rest) sent of
                Inl e \<Rightarrow> Inl e
              | Inr sent' \<Rightarrow> Inr (quorum, lks', sent')))"

subsection \<open>hasLock, locked, Unlock\<close>

fun hasLock_loop :: "(nat \<times> string) list \<Rightarrow> bool list \<Rightarrow> string \<Rightarrow> error + bool" where
  "hasLock_loop [] lks node = Inr False"
| "hasLock_loop ((idx, a) # rest) lks node =
     (if a = node then (if idx < length lks then Inr (lks ! idx) else Inl IndexOutOfRange)
      else hasLock_loop rest lks node)"

definition hasLock :: "string list \<Rightarrow> 'c DMutex \<Rightarrow> string \<Rightarrow> error + bool" where
  "hasLock nodes dm node = hasLock_loop (enumerate 0 nodes) (locks dm) node"

definition DMutex_locked :: "int \<Rightarrow> 'c DMutex \<Rightarrow> error + bool" where
  "DMutex_locked n dm =
     (if n < 0 then Inl MakeSliceLen
      else Inr (quorumMet n (copy (replicate (nat n) False) (locks dm))))"

fun Unlock_loop ::
  "string \<Rightarrow> (nat \<times> 'c option) list \<Rightarrow> bool list \<times> 'c release list
     \<Rightarrow> error + (bool list \<times> 'c release list)" where
  "Unlock_loop nm [] st = Inr st"
| "Unlock_loop nm ((idx, c) # rest) (lks, sent) =
     (if \<not> idx < length lks then Inl IndexOutOfRange
      else if lks ! idx then Unlock_loop nm rest (lks[idx := False], sent @ [(c, nm)])
      else Unlock_loop nm rest (lks, sent))"

text \<open>\<open>Unlock\<close> returns the mutex as it leaves it and the releases it dispatched.\<close>

definition Unlock :: "int \<Rightarrow> 'c DMutex \<Rightarrow> error + ('c DMutex \<times> 'c release list)" where
  "Unlock n dm =
     (case DMutex_locked n dm of
        Inl e \<Rightarrow> Inl e
      | Inr held \<Rightarrow>
          if \<not> held then Inl UnlockOfUnlocked
          else (case Unlock_loop (Name dm) (enumerate 0 (clnts dm)) (locks dm, []) of
                  Inl e \<Rightarrow> Inl e
                | Inr (lks, sent) \<Rightarrow> Inr (dm\<lparr>locks := lks\<rparr>, sent)))"

subsection \<open>connectLazy and Lock\<close>

text \<open>
  \<open>rpc.DialHTTPPath\<close> is the environment: \<open>dial i a\<close> is the handle the dial of slot \<open>i\<close> to
  address \<open>a\<close> yields, \<open>None\<close> when it fails (the error is dropped and the slot stays nil).
\<close>

fun connectLazy_loop ::
  "(nat \<Rightarrow> string \<Rightarrow> 'c option) \<Rightarrow> string list \<Rightarrow> nat list \<Rightarrow> 'c option list
     \<Rightarrow> error + 'c option list" where
  "connectLazy_loop dial nodes [] cs = Inr cs"
| "connectLazy_loop dial nodes (i # rest) cs =
     (if cs ! i \<noteq> None then connectLazy_loop dial nodes rest cs
      else if \<not> i < length nodes then Inl IndexOutOfRange
      else connectLazy_loop dial nodes rest (cs[i := dial i (nodes ! i)]))"

definition connectLazy ::
  "int \<Rightarrow> string list \<Rightarrow> (nat \<Rightarrow> string \<Rightarrow> 'c option) \<Rightarrow> 'c DMutex \<Rightarrow> error + 'c DMutex" where
  "connectLazy n nodes dial dm =
     (if clnts dm = [] \<and> n < 0 then Inl MakeSliceLen
      else
        (let cs = (if clnts dm = [] then replicate (nat n) None else clnts dm)
         in case connectLazy_loop dial nodes [0 ..< length cs] cs of
              Inl e \<Rightarrow> Inl e
            | Inr cs' \<Rightarrow> Inr (dm\<lparr>clnts := cs'\<rparr>)))"

text \<open>
  \<open>int(x)\<close> of a \<open>float64\<close> drops the fraction. \<open>rand.Float64()\<close> is a number \<open>u\<close> of
  \<open>[0, 1)\<close> and \<open>math.Pow(2, float64(runs))\<close> is the power of two \<open>2 ^ runs\<close> for the values
  \<open>1, \<dots>, 10\<close> that \<open>runs\<close> takes; a product with a power of two is exact in \<open>float64\<close>, so
  the product is the real one.
\<close>

definition int_of_float64 :: "real \<Rightarrow> int" where
  "int_of_float64 x = (if 0 \<le> x then \<lfloor>x\<rfloor> else \<lceil>x\<rceil>)"

text \<open>
  What the environment does during one iteration of the loop of \<open>Lock\<close>: the outcome of the
  dials, the events of the attempt, and the random number drawn after a failed attempt.
\<close>

record 'c attempt =
  dial :: "nat \<Rightarrow> string \<Rightarrow> 'c option"
  events :: "event list"
  draw :: real

text \<open>
  The outcome of \<open>Lock\<close> on a finite script of attempts: \<open>final\<close> is \<open>Some (Inr dm)\<close> when
  \<open>Lock\<close> returned, \<open>Some (Inl e)\<close> when it panicked, and \<open>None\<close> when every attempt of the
  script failed and the loop is still running. \<open>slept\<close> lists the arguments of
  \<open>time.Sleep\<close> in milliseconds, \<open>released\<close> the releases dispatched by the attempts.
\<close>

record 'c Lock_result =
  final :: "(error + 'c DMutex) option"
  slept :: "int list"
  released :: "'c release list"

fun Lock_loop ::
  "int \<Rightarrow> string list \<Rightarrow> 'c attempt list \<Rightarrow> nat \<Rightarrow> int \<Rightarrow> 'c DMutex \<Rightarrow> int list
     \<Rightarrow> 'c release list \<Rightarrow> 'c Lock_result" where
  "Lock_loop n nodes [] runs backOff dm sl rel =
     \<lparr>final = None, slept = sl, released = rel\<rparr>"
| "Lock_loop n nodes (a # script) runs backOff dm sl rel =
     (case connectLazy n nodes (dial a) dm of
        Inl e \<Rightarrow> \<lparr>final = Some (Inl e), slept = sl, released = rel\<rparr>
      | Inr dm1 \<Rightarrow>
          if n < 0 then \<lparr>final = Some (Inl MakeSliceLen), slept = sl, released = rel\<rparr>
          else
            (case lock n (clnts dm1) (replicate (nat n) False) (Name dm1) (events a) of
               Inl e \<Rightarrow> \<lparr>final = Some (Inl e), slept = sl, released = rel\<rparr>
             | Inr (success, lks, sent) \<Rightarrow>
                 if success then
                   \<lparr>final = Some (Inr (dm1\<lparr>locks := copy (replicate (nat n) False) lks\<rparr>)),
                    slept = sl, released = rel @ sent\<rparr>
                 else
                   (let sl' = sl @ [backOff];
                        backOff' = backOff + int_of_float64 (draw a * 2 ^ runs)
                    in if backOff' > 1024
                       then Lock_loop n nodes script 1 (backOff' smod 64) dm1 sl' (rel @ sent)
                       else if runs < 10
                       then Lock_loop n nodes script (runs + 1) backOff' dm1 sl' (rel @ sent)
                       else Lock_loop n nodes script runs backOff' dm1 sl' (rel @ sent))))"

definition Lock :: "int \<Rightarrow> string list \<Rightarrow> 'c attempt list \<Rightarrow> 'c DMutex \<Rightarrow> 'c Lock_result" where
  "Lock n nodes script dm = Lock_loop n nodes script 1 1 dm [] []"

subsection \<open>The states of a mutex between calls\<close>

text \<open>
  The fields of a \<open>DMutex\<close> are unexported and written by \<open>Lock\<close> and \<open>Unlock\<close> only (and by
  \<open>connectLazy\<close> inside \<open>Lock\<close>): between two calls a mutex is either as it was created,
  \<open>locks\<close> and \<open>clnts\<close> both nil, or as a returned \<open>Lock\<close> left it, both of length \<open>n\<close>.
\<close>

definition DMutex_ok :: "int \<Rightarrow> 'c DMutex \<Rightarrow> bool" where
  "DMutex_ok n dm \<longleftrightarrow>
     (locks dm = [] \<and> clnts dm = []) \<or> (length (locks dm) = nat n \<and> length (clnts dm) = nat n)"

subsection \<open>Grants received\<close>

text \<open>The peers from which a reply with \<open>locked = true\<close> is among the events.\<close>

definition granted_by :: "event list \<Rightarrow> nat set" where
  "granted_by evs = index ` {g \<in> set (replies evs). locked g}"

subsection \<open>A sample environment\<close>

text \<open>
  For the examples below: every dial succeeds and yields the slot number as the handle, and
  an attempt on a single peer that refuses the lock, after which the number drawn is \<open>1/2\<close>.
\<close>

definition dial_slot :: "nat \<Rightarrow> string \<Rightarrow> nat option" where
  "dial_slot i a = Some i"

definition refused :: "nat attempt" where
  "refused = \<lparr>dial = dial_slot, events = [Reply \<lparr>index = 0, locked = False\<rparr>], draw = 1 / 2\<rparr>"

section \<open>Counting grants\<close>

lemma fold_count_true:
  "fold (\<lambda>lckd count. if lckd then count + 1 else count) lks (c::int)
     = c + int (count_list lks True)"
  by (induction lks arbitrary: c) auto

lemma quorumMet_count: "quorumMet n lks \<longleftrightarrow> n sdiv 2 + 1 \<le> int (count_list lks True)"
  by (simp add: quorumMet_def fold_count_true)

lemma sdiv_two_nonneg: "0 \<le> (n::int) \<Longrightarrow> n sdiv 2 = n div 2"
  by (simp add: signed_divide_int_def sgn_if)

text \<open>
  Claim C8. For every \<open>n \<ge> 1\<close>, \<open>quorumMet\<close> returns true exactly when the number of true
  entries of the grant vector is at least \<open>\<lfloor>n/2\<rfloor> + 1\<close> (\<open>div\<close> on \<open>int\<close> is the floor
  division); the threshold is 1 for \<open>n = 1\<close> and 2 for \<open>n = 2\<close>.
\<close>

theorem quorumMet_threshold:
  "(1 \<le> n \<longrightarrow> quorumMet n lks = (n div 2 + 1 \<le> int (count_list lks True)))
   \<and> quorumMet 1 lks = (1 \<le> count_list lks True)
   \<and> quorumMet 2 lks = (2 \<le> count_list lks True)"
  by (auto simp add: quorumMet_count sdiv_two_nonneg)

theorem quorumMet_threshold_witness:
  "(1::int) \<le> 3 \<and> quorumMet 3 [True, False, True]
   \<and> 3 div 2 + 1 \<le> int (count_list [True, False, True] True)
   \<and> \<not> quorumMet 3 [True, False, False]"
  using quorumMet_threshold [of 3 "[True, False, True]"]
    quorumMet_threshold [of 3 "[True, False, False]"]
  by simp

section \<open>Loops that clear grants\<close>

lemma clear_nth:
  "j < length lks \<Longrightarrow> fold (\<lambda>i l. l[i := False]) is lks ! j = (if j \<in> set is then False else lks ! j)"
  by (induction "is" arbitrary: lks) (auto simp: nth_list_update)

lemma clear_length [simp]: "length (fold (\<lambda>i l. l[i := False]) is lks) = length lks"
  by (induction "is" arbitrary: lks) auto

lemma Unlock_loop_Inr:
  "Unlock_loop nm ps (lks, sent) = Inr (lks', sent') \<Longrightarrow> distinct (map fst ps) \<Longrightarrow>
     lks' = fold (\<lambda>i l. l[i := False]) (map fst ps) lks
     \<and> sent' = sent @ map (\<lambda>(i, c). (c, nm)) (filter (\<lambda>(i, c). lks ! i) ps)
     \<and> (\<forall>i \<in> set (map fst ps). i < length lks)"
proof (induction ps arbitrary: lks sent)
  case Nil
  then show ?case by simp
next
  case (Cons p ps)
  obtain k c where p: "p = (k, c)" by (cases p)
  from Cons.prems have k: "k < length lks" and d: "distinct (map fst ps)" and kn: "k \<notin> fst ` set ps"
    by (auto simp: p split: if_splits)
  have same: "filter (\<lambda>(i, c). lks[k := False] ! i) ps = filter (\<lambda>(i, c). lks ! i) ps"
  proof (intro filter_cong refl)
    fix x assume x: "x \<in> set ps"
    then have "fst x \<noteq> k" using kn by auto
    then show "(case x of (i, c) \<Rightarrow> lks[k := False] ! i) = (case x of (i, c) \<Rightarrow> lks ! i)"
      by (cases x) simp
  qed
  show ?case
  proof (cases "lks ! k")
    case True
    with Cons.prems k have "Unlock_loop nm ps (lks[k := False], sent @ [(c, nm)]) = Inr (lks', sent')"
      by (simp add: p)
    from Cons.IH [OF this d] show ?thesis using True k same by (simp add: p)
  next
    case False
    then have id: "lks[k := False] = lks" using k by (metis list_update_id)
    from False Cons.prems k have "Unlock_loop nm ps (lks, sent) = Inr (lks', sent')"
      by (simp add: p)
    from Cons.IH [OF this d] show ?thesis using False k id by (simp add: p)
  qed
qed

lemma Unlock_loop_total:
  "\<forall>i \<in> set (map fst ps). i < length lks \<Longrightarrow> \<exists>r. Unlock_loop nm ps (lks, sent) = Inr r"
proof (induction ps arbitrary: lks sent)
  case Nil
  then show ?case by simp
next
  case (Cons p ps)
  obtain k c where p: "p = (k, c)" by (cases p)
  from Cons.prems have a: "\<forall>i \<in> set (map fst ps). i < length (lks[k := False])" 
    and b: "\<forall>i \<in> set (map fst ps). i < length lks" and k: "k < length lks" by (auto simp: p)
  show ?case using Cons.IH [OF a] Cons.IH [OF b] k by (simp add: p)
qed

lemma map_fst_enumerate: "map fst (enumerate k xs) = [k ..< k + length xs]"
  by (simp add: enumerate_eq_zip)

lemma count_copy:
  "lks = [] \<or> length lks = m \<Longrightarrow> count_list (copy (replicate m False) lks) True = count_list lks True"
  by (auto simp: copy_def count_list_0_iff)

lemma enumerate_map_nth: "enumerate 0 xs = map (\<lambda>i. (i, xs ! i)) [0 ..< length xs]"
  by (rule nth_equalityI) (simp_all add: nth_enumerate_eq)

lemma sent_by_index:
  "map (\<lambda>(i, c). (c, nm)) (filter (\<lambda>(i, c). lks ! i) (enumerate 0 cs))
     = map (\<lambda>i. (cs ! i, nm)) (filter (\<lambda>i. lks ! i) [0 ..< length cs])"
  by (simp add: enumerate_map_nth filter_map comp_def)

lemma all_below_length: "\<forall>i \<in> set [0 ..< m]. i < (k::nat) \<Longrightarrow> m \<le> k"
  by (cases m) auto

lemma Unlock_Inr:
  assumes "Unlock n dm = Inr (dm', sent)"
  shows "0 \<le> n \<and> quorumMet n (copy (replicate (nat n) False) (locks dm))
     \<and> length (clnts dm) \<le> length (locks dm)
     \<and> dm' = dm\<lparr>locks := fold (\<lambda>i l. l[i := False]) [0 ..< length (clnts dm)] (locks dm)\<rparr>
     \<and> sent = map (\<lambda>i. (clnts dm ! i, Name dm)) (filter (\<lambda>i. locks dm ! i) [0 ..< length (clnts dm)])"
proof -
  from assms have n: "0 \<le> n" and q: "quorumMet n (copy (replicate (nat n) False) (locks dm))"
    by (auto simp: Unlock_def DMutex_locked_def split: if_splits sum.splits)
  from assms n q obtain lks where
    l: "Unlock_loop (Name dm) (enumerate 0 (clnts dm)) (locks dm, []) = Inr (lks, sent)"
    and dm': "dm' = dm\<lparr>locks := lks\<rparr>"
    by (auto simp: Unlock_def DMutex_locked_def split: if_splits sum.splits)
  have d: "distinct (map fst (enumerate 0 (clnts dm)))" by (simp add: map_fst_enumerate)
  note r = Unlock_loop_Inr [OF l d, unfolded map_fst_enumerate sent_by_index]
  from r have "length (clnts dm) \<le> length (locks dm)" by (intro all_below_length) simp
  with r n q dm' show ?thesis by simp
qed

lemma Unlock_returns:
  assumes "0 \<le> n" "quorumMet n (copy (replicate (nat n) False) (locks dm))"
    "length (clnts dm) \<le> length (locks dm)"
  shows "\<exists>r. Unlock n dm = Inr r"
proof -
  have "\<forall>i \<in> set (map fst (enumerate 0 (clnts dm))). i < length (locks dm)"
    using assms(3) by (simp add: map_fst_enumerate)
  from Unlock_loop_total [OF this] obtain r where
    "Unlock_loop (Name dm) (enumerate 0 (clnts dm)) (locks dm, []) = Inr r" by blast
  with assms show ?thesis by (cases r) (simp add: Unlock_def DMutex_locked_def)
qed

lemma clear_all: "length lks = m \<Longrightarrow> fold (\<lambda>i l. l[i := False]) [0 ..< m] lks = replicate m False"
  by (rule nth_equalityI) (simp_all add: clear_nth)

lemma count_replicate_False [simp]: "count_list (replicate m False) True = 0"
  by (simp add: count_list_0_iff)

section \<open>Unlock\<close>

lemma newDMutex_ok: "DMutex_ok n (newDMutex nm)"
  by (simp add: DMutex_ok_def newDMutex_def)

lemma locked_count:
  assumes "0 \<le> n" "DMutex_ok n dm"
  shows "quorumMet n (copy (replicate (nat n) False) (locks dm))
           \<longleftrightarrow> n div 2 + 1 \<le> int (count_list (locks dm) True)"
  using assms by (auto simp: quorumMet_count sdiv_two_nonneg count_copy DMutex_ok_def)

lemma held_lengths:
  assumes "0 \<le> n" "DMutex_ok n dm" "n div 2 + 1 \<le> int (count_list (locks dm) True)"
  shows "length (locks dm) = nat n \<and> length (clnts dm) = nat n"
proof -
  have "0 \<le> n div 2" using assms(1) by simp
  with assms(3) have "locks dm \<noteq> []" by auto
  with assms(2) show ?thesis by (auto simp: DMutex_ok_def)
qed

lemma Unlock_held:
  assumes "0 \<le> n" and "DMutex_ok n dm"
    and "n div 2 + 1 \<le> int (count_list (locks dm) True)"
  shows "\<exists>dm' sent. Unlock n dm = Inr (dm', sent)
     \<and> sent = map (\<lambda>i. (clnts dm ! i, Name dm)) (filter (\<lambda>i. locks dm ! i) [0 ..< length (locks dm)])
     \<and> (\<forall>i < length (locks dm). locks dm ! i \<longrightarrow> (clnts dm ! i, Name dm) \<in> set sent \<and> \<not> locks dm' ! i)
     \<and> length (locks dm') = length (locks dm) \<and> Name dm' = Name dm \<and> clnts dm' = clnts dm"
proof -
  from held_lengths [OF assms] have len: "length (locks dm) = nat n" "length (clnts dm) = nat n"
    by simp_all
  from assms have q: "quorumMet n (copy (replicate (nat n) False) (locks dm))"
    by (simp add: locked_count)
  from Unlock_returns [OF assms(1) q] len obtain dm' sent where u: "Unlock n dm = Inr (dm', sent)"
    by auto
  note r = Unlock_Inr [OF u]
  from r len have dm': "dm' = dm\<lparr>locks := replicate (nat n) False\<rparr>"
    by (simp add: clear_all)
  from r len have sent: "sent = map (\<lambda>i. (clnts dm ! i, Name dm)) (filter (\<lambda>i. locks dm ! i) [0 ..< length (locks dm)])"
    by simp
  have "\<forall>i < length (locks dm). locks dm ! i \<longrightarrow> (clnts dm ! i, Name dm) \<in> set sent \<and> \<not> locks dm' ! i"
    using len by (auto simp: sent dm')
  with u sent dm' len show ?thesis by simp
qed




lemma Unlock_new: "isl (Unlock n (newDMutex nm :: 'c DMutex))"
proof (cases "n < 0")
  case True
  then show ?thesis by (simp add: Unlock_def DMutex_locked_def)
next
  case False
  then have "0 \<le> n div 2" by simp
  then have "\<not> quorumMet n (replicate (nat n) False)"
    using False by (simp add: quorumMet_count sdiv_two_nonneg)
  then show ?thesis using False
    by (simp add: Unlock_def DMutex_locked_def newDMutex_def copy_def)
qed

text \<open>
  Claim C5. On a mutex between calls, \<open>Unlock\<close> panics if and only if fewer than
  \<open>\<lfloor>n/2\<rfloor> + 1\<close> entries of \<open>dm.locks\<close> are true on entry, and the panic is then the one of
  line 241; on a mutex that was never locked \<open>Unlock\<close> always panics.
\<close>

theorem Unlock_panics_iff:
  "(0 \<le> n \<and> DMutex_ok n dm \<longrightarrow>
      (isl (Unlock n dm) \<longleftrightarrow> int (count_list (locks dm) True) < n div 2 + 1)
      \<and> (Unlock n dm = Inl UnlockOfUnlocked \<longleftrightarrow> int (count_list (locks dm) True) < n div 2 + 1))
   \<and> isl (Unlock n (newDMutex nm))"
proof (intro conjI impI)
  assume a: "0 \<le> n \<and> DMutex_ok n dm"
  then have n: "0 \<le> n" and ok: "DMutex_ok n dm" by simp_all
  show "Unlock n dm = Inl UnlockOfUnlocked \<longleftrightarrow> int (count_list (locks dm) True) < n div 2 + 1"
  proof (cases "n div 2 + 1 \<le> int (count_list (locks dm) True)")
    case True
    from Unlock_held [OF n ok True] True show ?thesis by auto
  next
    case False
    with n ok show ?thesis by (simp add: Unlock_def DMutex_locked_def locked_count)
  qed
  show "isl (Unlock n dm) \<longleftrightarrow> int (count_list (locks dm) True) < n div 2 + 1"
  proof (cases "n div 2 + 1 \<le> int (count_list (locks dm) True)")
    case True
    from Unlock_held [OF n ok True] True show ?thesis by auto
  next
    case False
    with n ok show ?thesis by (simp add: Unlock_def DMutex_locked_def locked_count)
  qed
next
  show "isl (Unlock n (newDMutex nm))"
    by (rule Unlock_new)
qed

theorem Unlock_panics_iff_witness:
  "(0::int) \<le> 4
   \<and> DMutex_ok 4 \<lparr>Name = ''L'', locks = [True, False, True, False],
                    clnts = [Some (10::nat), Some 11, Some 12, Some 13]\<rparr>
   \<and> int (count_list [True, False, True, False] True) < 4 div 2 + 1
   \<and> Unlock 4 \<lparr>Name = ''L'', locks = [True, False, True, False],
                 clnts = [Some (10::nat), Some 11, Some 12, Some 13]\<rparr> = Inl UnlockOfUnlocked
   \<and> Unlock 4 (newDMutex ''L'' :: nat DMutex) = Inl UnlockOfUnlocked"
  using Unlock_panics_iff [of 4 "\<lparr>Name = ''L'', locks = [True, False, True, False],
                    clnts = [Some (10::nat), Some 11, Some 12, Some 13]\<rparr>" "''L''"]
  by (simp add: DMutex_ok_def Unlock_def DMutex_locked_def quorumMet_count copy_def
      signed_divide_int_def newDMutex_def)





section \<open>One acquisition attempt\<close>

lemma releaseAll_loop_Inr:
  "releaseAll_loop cs nm is (lks, sent) = Inr (lks', sent') \<Longrightarrow> distinct is \<Longrightarrow>
     lks' = fold (\<lambda>i l. l[i := False]) is lks
     \<and> sent' = sent @ map (\<lambda>i. (cs ! i, nm)) (filter (\<lambda>i. lks ! i) is)"
proof (induction "is" arbitrary: lks sent)
  case Nil
  then show ?case by simp
next
  case (Cons k ks)
  from Cons.prems have k: "k < length lks" and d: "distinct ks" and kn: "k \<notin> set ks"
    by (auto split: if_splits)
  have same: "filter (\<lambda>i. lks[k := False] ! i) ks = filter (\<lambda>i. lks ! i) ks"
  proof (intro filter_cong refl)
    fix x assume "x \<in> set ks"
    with kn have "x \<noteq> k" by auto
    then show "lks[k := False] ! x = lks ! x" by simp
  qed
  show ?case
  proof (cases "lks ! k")
    case True
    with Cons.prems k have
      "releaseAll_loop cs nm ks (lks[k := False], sent @ [(cs ! k, nm)]) = Inr (lks', sent')"
      by (simp split: if_splits)
    from Cons.IH [OF this d] show ?thesis using True same by simp
  next
    case False
    then have id: "lks[k := False] = lks" using k by (metis list_update_id)
    from False Cons.prems k have "releaseAll_loop cs nm ks (lks, sent) = Inr (lks', sent')"
      by simp
    from Cons.IH [OF this d] show ?thesis using False id by simp
  qed
qed

lemma releaseAll_loop_total:
  "\<forall>i \<in> set is. i < length lks \<and> i < length cs \<Longrightarrow>
     \<exists>r. releaseAll_loop cs nm is (lks, sent) = Inr r"
proof (induction "is" arbitrary: lks sent)
  case Nil
  then show ?case by simp
next
  case (Cons k ks)
  from Cons.prems have a: "\<forall>i \<in> set ks. i < length (lks[k := False]) \<and> i < length cs"
    and b: "\<forall>i \<in> set ks. i < length lks \<and> i < length cs"
    and k: "k < length lks" "k < length cs" by auto
  show ?case using Cons.IH [OF a] Cons.IH [OF b] k by simp
qed

lemma releaseAll_Inr:
  assumes "releaseAll n cs nm (lks, sent) = Inr (lks', sent')"
  shows "lks' = fold (\<lambda>i l. l[i := False]) [0 ..< nat n] lks
     \<and> sent' = sent @ map (\<lambda>i. (cs ! i, nm)) (filter (\<lambda>i. lks ! i) [0 ..< nat n])"
  using releaseAll_loop_Inr [OF assms [unfolded releaseAll_def]] by simp

lemma releaseAll_full:
  assumes "length lks = nat n" "length cs = nat n"
  shows "releaseAll n cs nm (lks, sent)
     = Inr (replicate (nat n) False, sent @ map (\<lambda>i. (cs ! i, nm)) (filter (\<lambda>i. lks ! i) [0 ..< nat n]))"
proof -
  have "\<forall>i \<in> set [0 ..< nat n]. i < length lks \<and> i < length cs" using assms by simp
  from releaseAll_loop_total [OF this] obtain r where
    r: "releaseAll n cs nm (lks, sent) = Inr r" unfolding releaseAll_def by blast
  obtain lks' sent' where "r = (lks', sent')" by (cases r)
  with r releaseAll_Inr [of n cs nm lks sent lks' sent'] assms(1) show ?thesis
    by (simp add: clear_all)
qed

lemma lock_drain_Inr:
  "lock_drain n cs nm i gs sent = Inr sent' \<Longrightarrow>
     sent' = sent @ map (\<lambda>g. (cs ! index g, nm)) (filter locked (take (nat n - i) gs))"
proof (induction gs arbitrary: i sent)
  case Nil
  then show ?case by simp
next
  case (Cons g gs)
  show ?case
  proof (cases "int i < n")
    case False
    then have "nat n - i = 0" by simp
    with Cons.prems False show ?thesis by simp
  next
    case True
    then have t: "nat n - i = Suc (nat n - (i + 1))" by simp
    show ?thesis
    proof (cases "locked g")
      case l: True
      with Cons.prems True have "lock_drain n cs nm (i + 1) gs (sent @ [(cs ! index g, nm)]) = Inr sent'"
        by (simp split: if_splits)
      from Cons.IH [OF this] l show ?thesis by (simp add: t del: Suc_eq_plus1 One_nat_def)
    next
      case l: False
      with Cons.prems True have "lock_drain n cs nm (i + 1) gs sent = Inr sent'" by simp
      from Cons.IH [OF this] l show ?thesis by (simp add: t)
    qed
  qed
qed

lemma lock_drain_total:
  "\<forall>g \<in> set gs. locked g \<longrightarrow> index g < length cs \<Longrightarrow> \<exists>s. lock_drain n cs nm i gs sent = Inr s"
  by (induction gs arbitrary: i sent) auto

lemma releaseAll_st:
  assumes "releaseAll n cs nm st = Inr st'"
  shows "fst st' = fold (\<lambda>i l. l[i := False]) [0 ..< nat n] (fst st)
     \<and> snd st' = snd st @ map (\<lambda>i. (cs ! i, nm)) (filter (\<lambda>i. fst st ! i) [0 ..< nat n])"
  using releaseAll_Inr [of n cs nm "fst st" "snd st" "fst st'" "snd st'"] assms by simp

lemma releaseAll_loop_range:
  "releaseAll_loop cs nm is (lks, sent) = Inr r \<Longrightarrow> i \<in> set is \<Longrightarrow> i < length lks"
proof (induction "is" arbitrary: lks sent)
  case Nil
  then show ?case by simp
next
  case (Cons k ks)
  from Cons.prems(1) have k: "k < length lks" by (simp split: if_splits)
  show ?case
  proof (cases "i = k")
    case True
    with k show ?thesis by simp
  next
    case False
    with Cons.prems(2) have i: "i \<in> set ks" by simp
    show ?thesis
    proof (cases "lks ! k")
      case True
      with Cons.prems(1) k have
        "releaseAll_loop cs nm ks (lks[k := False], sent @ [(cs ! k, nm)]) = Inr r"
        by (simp split: if_splits)
      from Cons.IH [OF this i] show ?thesis by simp
    next
      case False
      with Cons.prems(1) k have "releaseAll_loop cs nm ks (lks, sent) = Inr r" by simp
      from Cons.IH [OF this i] show ?thesis .
    qed
  qed
qed

lemma releaseAll_range:
  assumes "releaseAll n cs nm st = Inr st'" and "j < nat n"
  shows "j < length (fst st)"
  using releaseAll_loop_range [of cs nm "[0 ..< nat n]" "fst st" "snd st" st' j] assms
  by (simp add: releaseAll_def)

lemma on_timeout_st:
  assumes "on_timeout n cs nm st = Inr st'"
  shows "(quorumMet n (fst st) \<and> st' = st)
     \<or> (\<not> quorumMet n (fst st)
         \<and> fst st' = fold (\<lambda>i l. l[i := False]) [0 ..< nat n] (fst st)
         \<and> snd st' = snd st @ map (\<lambda>i. (cs ! i, nm)) (filter (\<lambda>i. fst st ! i) [0 ..< nat n]))"
  using assms releaseAll_st [of n cs nm st st'] by (auto simp: on_timeout_def split: if_splits)

lemma granted_by_simps [simp]:
  "granted_by [] = {}"
  "granted_by (Timeout # evs) = granted_by evs"
  "granted_by (Reply g # evs) = (if locked g then insert (index g) (granted_by evs) else granted_by evs)"
  by (auto simp: granted_by_def)

lemma decision_length:
  "lock_decision n cs nm i evs st = Inr (i', rest, st') \<Longrightarrow> length (fst st') = length (fst st)"
proof (induction n cs nm i evs st rule: lock_decision.induct)
  case (1 n cs nm i st)
  then show ?case by (auto split: if_splits sum.splits dest!: on_timeout_st)
next
  case (2 n cs nm i rest st)
  then show ?case by (auto split: if_splits sum.splits dest!: on_timeout_st)
next
  case (3 n cs nm i grant rest st)
  then show ?case by (auto split: if_splits sum.splits dest!: releaseAll_st)
qed

lemma cleared_marked:
  "fold (\<lambda>i l. l[i := False]) is lks ! j \<Longrightarrow> j < length lks \<Longrightarrow> lks ! j"
  by (simp add: clear_nth split: if_splits)

lemma break_facts:
  assumes "on_timeout n cs nm st = Inr st' \<or> releaseAll n cs nm st = Inr st'"
  shows "(\<forall>j. fst st' ! j \<longrightarrow> j < length (fst st') \<longrightarrow> fst st ! j \<or> j \<in> G)
     \<and> (\<exists>js. snd st' = snd st @ map (\<lambda>j. (cs ! j, nm)) js \<and> (\<forall>j \<in> set js. j < length (fst st) \<and> (fst st ! j \<or> j \<in> G)))"
proof -
  let ?js = "filter (\<lambda>i. fst st ! i) [0 ..< nat n]"
  have "st' = st \<or> (fst st' = fold (\<lambda>i l. l[i := False]) [0 ..< nat n] (fst st)
      \<and> snd st' = snd st @ map (\<lambda>i. (cs ! i, nm)) ?js
      \<and> releaseAll n cs nm st = Inr st')"
  proof (rule disjE [OF assms])
    assume o: "on_timeout n cs nm st = Inr st'"
    show ?thesis
    proof (cases "quorumMet n (fst st)")
      case True
      with o show ?thesis by (simp add: on_timeout_def)
    next
      case False
      with o have r: "releaseAll n cs nm st = Inr st'" by (simp add: on_timeout_def)
      from releaseAll_st [OF r] r show ?thesis by simp
    qed
  next
    assume r: "releaseAll n cs nm st = Inr st'"
    from releaseAll_st [OF r] r show ?thesis by simp
  qed
  then show ?thesis
  proof
    assume e: "st' = st"
    have "snd st = snd st @ map (\<lambda>j. (cs ! j, nm)) [] \<and> (\<forall>j \<in> set []. j < length (fst st) \<and> (fst st ! j \<or> j \<in> G))" by simp
    then have "\<exists>js. snd st = snd st @ map (\<lambda>j. (cs ! j, nm)) js \<and> (\<forall>j \<in> set js. j < length (fst st) \<and> (fst st ! j \<or> j \<in> G))"
      by (rule exI)
    then show ?thesis by (simp add: e)
  next
    assume c: "fst st' = fold (\<lambda>i l. l[i := False]) [0 ..< nat n] (fst st)
      \<and> snd st' = snd st @ map (\<lambda>i. (cs ! i, nm)) ?js
      \<and> releaseAll n cs nm st = Inr st'"
    then have r: "releaseAll n cs nm st = Inr st'" by simp
    have rng: "j < length (fst st)" if "j < nat n" for j
      using releaseAll_range [OF r that] .
    have a: "\<forall>j. fst st' ! j \<longrightarrow> j < length (fst st') \<longrightarrow> fst st ! j \<or> j \<in> G"
      using c cleared_marked [of "[0 ..< nat n]" "fst st"] by simp
    have "snd st' = snd st @ map (\<lambda>j. (cs ! j, nm)) ?js \<and> (\<forall>j \<in> set ?js. j < length (fst st) \<and> (fst st ! j \<or> j \<in> G))"
      using c rng by simp
    then have "\<exists>js. snd st' = snd st @ map (\<lambda>j. (cs ! j, nm)) js \<and> (\<forall>j \<in> set js. j < length (fst st) \<and> (fst st ! j \<or> j \<in> G))"
      by (rule exI)
    with a show ?thesis by (rule conjI)
  qed
qed

lemma decision_consumes:
  "lock_decision n cs nm i evs st = Inr (i', rest, st') \<Longrightarrow>
     \<exists>used js. evs = used @ rest \<and> i \<le> i'
       \<and> i' + length (replies rest) \<le> i + length (replies evs)
       \<and> (\<forall>j. fst st' ! j \<longrightarrow> j < length (fst st') \<longrightarrow> fst st ! j \<or> j \<in> granted_by used)
       \<and> snd st' = snd st @ map (\<lambda>j. (cs ! j, nm)) js
       \<and> (\<forall>j \<in> set js. j < length (fst st) \<and> (fst st ! j \<or> j \<in> granted_by used))"
proof (induction n cs nm i evs st arbitrary: i' rest st' rule: lock_decision.induct)
  case (1 n cs nm i st)
  have "i' = i \<and> rest = [] \<and> (st' = st \<or> on_timeout n cs nm st = Inr st')"
    using 1 by (cases "int i < n") (auto split: sum.splits)
  then have r: "i' = i" "rest = []" and o: "st' = st \<or> on_timeout n cs nm st = Inr st'" by simp_all
  have "\<exists>js. (\<forall>j. fst st' ! j \<longrightarrow> j < length (fst st') \<longrightarrow> fst st ! j \<or> j \<in> granted_by [])
     \<and> snd st' = snd st @ map (\<lambda>j. (cs ! j, nm)) js \<and> (\<forall>j \<in> set js. j < length (fst st) \<and> (fst st ! j \<or> j \<in> granted_by []))"
  proof (rule disjE [OF o])
    assume "st' = st"
    then show ?thesis by (intro exI [of _ "[]"]) simp
  next
    assume "on_timeout n cs nm st = Inr st'"
    then have "on_timeout n cs nm st = Inr st' \<or> releaseAll n cs nm st = Inr st'" by simp
    from break_facts [OF this, of "granted_by []"] show ?thesis
      by (elim conjE exE) (intro exI conjI; assumption)
  qed
  then obtain js where f: "\<forall>j. fst st' ! j \<longrightarrow> j < length (fst st') \<longrightarrow> fst st ! j \<or> j \<in> granted_by []"
    "snd st' = snd st @ map (\<lambda>j. (cs ! j, nm)) js" "\<forall>j \<in> set js. j < length (fst st) \<and> (fst st ! j \<or> j \<in> granted_by [])"
    by (elim conjE exE) (rule that; assumption)
  have c: "[] = [] @ rest" "i \<le> i'" "i' + length (replies rest) \<le> i + length (replies [])"
    using r by simp_all
  show ?case
    by (rule exI [of _ "[]"], rule exI [of _ js], intro conjI) (rule c f)+
next
  case (2 n cs nm i evs st)
  have "(i' = i \<and> rest = Timeout # evs \<and> st' = st)
      \<or> (i' = i \<and> rest = evs \<and> on_timeout n cs nm st = Inr st')"
    using 2 by (cases "int i < n") (auto split: sum.splits)
  then show ?case
  proof
    assume a: "i' = i \<and> rest = Timeout # evs \<and> st' = st"
    have c: "Timeout # evs = [] @ rest" "i \<le> i'"
      "i' + length (replies rest) \<le> i + length (replies (Timeout # evs))"
      "\<forall>j. fst st' ! j \<longrightarrow> j < length (fst st') \<longrightarrow> fst st ! j \<or> j \<in> granted_by []"
      "snd st' = snd st @ map (\<lambda>j. (cs ! j, nm)) []"
      "\<forall>j \<in> set []. j < length (fst st) \<and> (fst st ! j \<or> j \<in> granted_by [])"
      using a by simp_all
    show ?thesis
      by (rule exI [of _ "[]"], rule exI [of _ "[]"], intro conjI) (rule c)+
  next
    assume a: "i' = i \<and> rest = evs \<and> on_timeout n cs nm st = Inr st'"
    then have "on_timeout n cs nm st = Inr st' \<or> releaseAll n cs nm st = Inr st'" by simp
    from break_facts [OF this, of "granted_by [Timeout]"] obtain js where
      f: "\<forall>j. fst st' ! j \<longrightarrow> j < length (fst st') \<longrightarrow> fst st ! j \<or> j \<in> granted_by [Timeout]"
      "snd st' = snd st @ map (\<lambda>j. (cs ! j, nm)) js"
      "\<forall>j \<in> set js. j < length (fst st) \<and> (fst st ! j \<or> j \<in> granted_by [Timeout])"
      by (elim conjE exE) (rule that; assumption)
    have c: "Timeout # evs = [Timeout] @ rest" "i \<le> i'"
      "i' + length (replies rest) \<le> i + length (replies (Timeout # evs))"
      using a by simp_all
    show ?thesis
      by (rule exI [of _ "[Timeout]"], rule exI [of _ js], intro conjI) (rule c f)+
  qed
next
  case (3 n cs nm i grant evs st)
  have "(i' = i \<and> rest = Reply grant # evs \<and> st' = st)
      \<or> (\<not> locked grant \<and> i' = i \<and> rest = evs \<and> releaseAll n cs nm st = Inr st')
      \<or> (int i < n \<and> locked grant \<and> index grant < length (fst st)
          \<and> lock_decision n cs nm (i + 1) evs ((fst st)[index grant := True], snd st)
                = Inr (i', rest, st'))"
    using 3(2) by (cases "int i < n"; cases "locked grant") (auto split: sum.splits if_splits)
  then consider
      (stop) "i' = i" "rest = Reply grant # evs" "st' = st"
    | (lost) "\<not> locked grant" "i' = i" "rest = evs" "releaseAll n cs nm st = Inr st'"
    | (mark) "int i < n" "locked grant" "index grant < length (fst st)"
        "lock_decision n cs nm (i + 1) evs ((fst st)[index grant := True], snd st)
           = Inr (i', rest, st')"
    by blast
  then show ?case
  proof cases
    case stop
    have c: "Reply grant # evs = [] @ rest" "i \<le> i'"
      "i' + length (replies rest) \<le> i + length (replies (Reply grant # evs))"
      "\<forall>j. fst st' ! j \<longrightarrow> j < length (fst st') \<longrightarrow> fst st ! j \<or> j \<in> granted_by []"
      "snd st' = snd st @ map (\<lambda>j. (cs ! j, nm)) []"
      "\<forall>j \<in> set []. j < length (fst st) \<and> (fst st ! j \<or> j \<in> granted_by [])"
      using stop by simp_all
    show ?thesis
      by (rule exI [of _ "[]"], rule exI [of _ "[]"], intro conjI) (rule c)+
  next
    case lost
    then have "on_timeout n cs nm st = Inr st' \<or> releaseAll n cs nm st = Inr st'" by simp
    from break_facts [OF this, of "granted_by [Reply grant]"] obtain js where
      f: "\<forall>j. fst st' ! j \<longrightarrow> j < length (fst st') \<longrightarrow> fst st ! j \<or> j \<in> granted_by [Reply grant]"
      "snd st' = snd st @ map (\<lambda>j. (cs ! j, nm)) js"
      "\<forall>j \<in> set js. j < length (fst st) \<and> (fst st ! j \<or> j \<in> granted_by [Reply grant])"
      by (elim conjE exE) (rule that; assumption)
    have c: "Reply grant # evs = [Reply grant] @ rest" "i \<le> i'"
      "i' + length (replies rest) \<le> i + length (replies (Reply grant # evs))"
      using lost by simp_all
    show ?thesis
      by (rule exI [of _ "[Reply grant]"], rule exI [of _ js], intro conjI) (rule c f)+
  next
    case mark
    from 3(1) [OF mark, unfolded fst_conv snd_conv] obtain used js where
      u: "evs = used @ rest" "i + 1 \<le> i'"
         "i' + length (replies rest) \<le> i + 1 + length (replies evs)"
      and m: "\<forall>j. fst st' ! j \<longrightarrow> j < length (fst st') \<longrightarrow>
                  (fst st)[index grant := True] ! j \<or> j \<in> granted_by used"
      and s: "snd st' = snd st @ map (\<lambda>j. (cs ! j, nm)) js"
             "\<forall>j \<in> set js. j < length ((fst st)[index grant := True])
                  \<and> ((fst st)[index grant := True] ! j \<or> j \<in> granted_by used)"
      by (elim exE conjE) (rule that; assumption)
    have upd: "fst st ! j \<or> j \<in> granted_by (Reply grant # used)"
      if "(fst st)[index grant := True] ! j \<or> j \<in> granted_by used" for j
    proof (cases "j = index grant")
      case True
      with mark(2) show ?thesis by simp
    next
      case False
      with that mark(2) show ?thesis by auto
    qed
    have a: "\<forall>j. fst st' ! j \<longrightarrow> j < length (fst st') \<longrightarrow>
               fst st ! j \<or> j \<in> granted_by (Reply grant # used)"
    proof (intro allI impI)
      fix j assume "fst st' ! j" "j < length (fst st')"
      with m have "(fst st)[index grant := True] ! j \<or> j \<in> granted_by used" by simp
      then show "fst st ! j \<or> j \<in> granted_by (Reply grant # used)" by (rule upd)
    qed
    have b: "\<forall>j \<in> set js. j < length (fst st) \<and> (fst st ! j \<or> j \<in> granted_by (Reply grant # used))"
    proof
      fix j assume "j \<in> set js"
      with s(2) have "j < length ((fst st)[index grant := True])"
        "(fst st)[index grant := True] ! j \<or> j \<in> granted_by used" by simp_all
      with upd [of j] show "j < length (fst st) \<and> (fst st ! j \<or> j \<in> granted_by (Reply grant # used))"
        by simp
    qed
    have c: "Reply grant # evs = (Reply grant # used) @ rest" "i \<le> i'"
      "i' + length (replies rest) \<le> i + length (replies (Reply grant # evs))"
      using u by simp_all
    show ?thesis
      by (rule exI [of _ "Reply grant # used"], rule exI [of _ js], intro conjI)
        (rule c a s(1) b)+
  qed
qed

lemma mark_length [simp]: "length (fold (\<lambda>p l. l[index p := True]) pre lks) = length lks"
  by (induction pre arbitrary: lks) auto

lemma decision_lost:
  assumes "\<forall>p \<in> set pre. locked p \<and> index p < length lks"
    and "int (i + length pre) < n" and "\<not> locked g"
  shows "lock_decision n cs nm i (map Reply pre @ Reply g # post) (lks, sent)
     = (case releaseAll n cs nm (fold (\<lambda>p l. l[index p := True]) pre lks, sent) of
          Inl e \<Rightarrow> Inl e
        | Inr st' \<Rightarrow> Inr (i + length pre, post, st'))"
  using assms
proof (induction pre arbitrary: i lks)
  case Nil
  then show ?case by (simp split: sum.splits)
next
  case (Cons p pre)
  from Cons.prems have p: "locked p" "index p < length lks" "int i < n" by simp_all
  have a: "\<forall>q \<in> set pre. locked q \<and> index q < length (lks[index p := True])"
    using Cons.prems(1) by simp
  have b: "int (i + 1 + length pre) < n" using Cons.prems(2) by simp
  from Cons.IH [OF a b Cons.prems(3)] p show ?case by (simp split: sum.splits)
qed

lemma quorum_none: "0 \<le> n \<Longrightarrow> \<not> quorumMet n (replicate m False)"
proof -
  assume "0 \<le> n"
  then have "0 \<le> n div 2" by simp
  then show ?thesis using \<open>0 \<le> n\<close> by (simp add: quorumMet_count sdiv_two_nonneg)
qed

text \<open>
  Claim C3. Let an attempt of \<open>n\<close> peers receive, before anything else, fewer than \<open>n\<close>
  replies with \<open>locked = true\<close> (\<open>pre\<close>) and then a reply with \<open>locked = false\<close>. The
  decision phase ends at that reply, with \<open>i\<close> the number of replies before it and the
  events after it (\<open>post\<close>) left to the drain phase, whatever they are; \<open>releaseAll\<close> has
  dispatched a release for every index marked true at that moment and cleared every entry;
  and \<open>lock\<close> returns false.
\<close>

theorem negative_reply_loses_attempt:
  assumes len: "length lks = nat n" "length cs = nat n"
    and pre: "\<forall>p \<in> set pre. locked p \<and> index p < nat n"
    and first: "length pre < nat n"
    and neg: "\<not> locked g"
    and late: "\<forall>p \<in> set (replies post). locked p \<longrightarrow> index p < nat n"
  shows "lock_decision n cs nm 0 (map Reply pre @ Reply g # post) (lks, [])
       = Inr (length pre, post, replicate (nat n) False,
              map (\<lambda>j. (cs ! j, nm))
                (filter (\<lambda>j. fold (\<lambda>p l. l[index p := True]) pre lks ! j) [0 ..< nat n]))
     \<and> (\<exists>drained. lock n cs lks nm (map Reply pre @ Reply g # post)
           = Inr (False, replicate (nat n) False,
                  map (\<lambda>j. (cs ! j, nm))
                    (filter (\<lambda>j. fold (\<lambda>p l. l[index p := True]) pre lks ! j) [0 ..< nat n])
                  @ drained))"
proof -
  let ?marked = "fold (\<lambda>p l. l[index p := True]) pre lks"
  let ?rel = "map (\<lambda>j. (cs ! j, nm)) (filter (\<lambda>j. ?marked ! j) [0 ..< nat n])"
  let ?evs = "map Reply pre @ Reply g # post"
  have n: "0 < n" using first by simp
  have a: "\<forall>p \<in> set pre. locked p \<and> index p < length lks" using pre len by simp
  have b: "int (0 + length pre) < n" using first by simp
  have r: "releaseAll n cs nm (?marked, []) = Inr (replicate (nat n) False, [] @ ?rel)"
    using len by (intro releaseAll_full) simp_all
  have d: "lock_decision n cs nm 0 ?evs (lks, []) = Inr (length pre, post, replicate (nat n) False, ?rel)"
    using decision_lost [OF a b neg, of cs nm post "[]"] r by simp
  have "\<forall>p \<in> set (replies post). locked p \<longrightarrow> index p < length cs" using late len by simp
  from lock_drain_total [OF this, of n nm "length pre" ?rel] obtain s where
    s: "lock_drain n cs nm (length pre) (replies post) ?rel = Inr s" by blast
  from lock_drain_Inr [OF s] obtain drained where dr: "s = ?rel @ drained" by blast
  have c: "\<not> n sdiv 2 + 1 < 0" using n by (simp add: sdiv_two_nonneg)
  have q: "\<not> quorumMet n (replicate (nat n) False)" using n by (intro quorum_none) simp
  have "lock n cs lks nm ?evs = Inr (False, replicate (nat n) False, ?rel @ drained)"
    using d s dr c q by (simp add: lock_def)
  with d show ?thesis by blast
qed

theorem negative_reply_loses_attempt_witness:
  "length [False, False, False, False] = nat 4
   \<and> length [Some (10::nat), Some 11, Some 12, Some 13] = nat 4
   \<and> length [\<lparr>index = 1, locked = True\<rparr>, \<lparr>index = 2, locked = True\<rparr>] < nat 4
   \<and> \<not> locked \<lparr>index = 0, locked = False\<rparr>
   \<and> lock 4 [Some (10::nat), Some 11, Some 12, Some 13] [False, False, False, False] ''L''
        [Reply \<lparr>index = 1, locked = True\<rparr>, Reply \<lparr>index = 2, locked = True\<rparr>,
         Reply \<lparr>index = 0, locked = False\<rparr>, Reply \<lparr>index = 3, locked = True\<rparr>]
       = Inr (False, [False, False, False, False],
              [(Some 11, ''L''), (Some 12, ''L''), (Some 13, ''L'')])"
  using negative_reply_loses_attempt [of "[False, False, False, False]" 4
      "[Some (10::nat), Some 11, Some 12, Some 13]"
      "[\<lparr>index = 1, locked = True\<rparr>, \<lparr>index = 2, locked = True\<rparr>]"
      "\<lparr>index = 0, locked = False\<rparr>" "[Reply \<lparr>index = 3, locked = True\<rparr>]" "''L''"]
  by (simp add: lock_def releaseAll_def quorumMet_def signed_divide_int_def numeral_eq_Suc)

lemma replies_append: "replies (xs @ ys) = replies xs @ replies ys"
  by (induction xs rule: replies.induct) auto

lemma granted_by_append: "granted_by (xs @ ys) = granted_by xs \<union> granted_by ys"
  by (auto simp: granted_by_def replies_append)

lemma distinct_below: "distinct xs \<Longrightarrow> \<forall>x \<in> set xs. x < (m::nat) \<Longrightarrow> length xs \<le> m"
proof -
  assume d: "distinct xs" and b: "\<forall>x \<in> set xs. x < m"
  from b have "set xs \<subseteq> {..<m}" by auto
  then have "card (set xs) \<le> card {..<m}" by (intro card_mono) simp_all
  with d show ?thesis by (simp add: distinct_card)
qed

lemma lock_after_decision:
  assumes d: "lock_decision n cs nm 0 evs (lks, []) = Inr (i, rest, lks', sent)"
    and n: "0 \<le> n"
    and many: "length (replies evs) \<le> nat n"
    and rng: "\<forall>g \<in> set (replies rest). locked g \<longrightarrow> index g < length cs"
  shows "lock n cs lks nm evs
     = Inr (quorumMet n lks', lks',
            sent @ map (\<lambda>g. (cs ! index g, nm)) (filter locked (replies rest)))"
proof -
  from decision_consumes [OF d] have "i + length (replies rest) \<le> 0 + length (replies evs)"
    by (elim exE conjE)
  with many have all: "take (nat n - i) (replies rest) = replies rest" by simp
  from lock_drain_total [OF rng, of n nm i sent] obtain s where
    s: "lock_drain n cs nm i (replies rest) sent = Inr s" by blast
  from lock_drain_Inr [OF s] all
  have "s = sent @ map (\<lambda>g. (cs ! index g, nm)) (filter locked (replies rest))" by simp
  moreover have "\<not> n sdiv 2 + 1 < 0" using n by (simp add: sdiv_two_nonneg)
  ultimately show ?thesis using d s by (simp add: lock_def)
qed

lemma late_not_granted:
  assumes d: "lock_decision n cs nm 0 evs (replicate m False, []) = Inr (i, rest, lks', sent)"
    and dist: "distinct (map index (replies evs))"
    and g: "g \<in> set (replies rest)" and j: "index g < m"
  shows "\<not> lks' ! index g"
proof
  assume t: "lks' ! index g"
  from decision_length [OF d] have len: "length lks' = m" by simp
  from decision_consumes [OF d] obtain used where
    u: "evs = used @ rest"
    and m: "\<forall>j. lks' ! j \<longrightarrow> j < length lks' \<longrightarrow> replicate m False ! j \<or> j \<in> granted_by used"
    by (elim exE conjE) simp
  from m t j len have "index g \<in> granted_by used" by simp
  then obtain g' where g': "g' \<in> set (replies used)" "index g' = index g"
    by (auto simp: granted_by_def)
  from dist u have "distinct (map index (replies used) @ map index (replies rest))"
    by (simp add: replies_append)
  then have "set (map index (replies used)) \<inter> set (map index (replies rest)) = {}"
    by simp
  moreover have "index g' \<in> index ` set (replies used)" using g'(1) by (rule imageI)
  then have "index g \<in> set (map index (replies used))" using g'(2) by simp
  moreover have "index g \<in> set (map index (replies rest))" using g by simp
  ultimately show False by blast
qed

text \<open>
  Claim C2. Take an attempt as \<open>Lock\<close> starts it (a fresh grant vector, \<open>n\<close> clients, at
  most one reply per peer) and let the decision phase end with grant vector \<open>lks'\<close>,
  releases \<open>sent\<close> and the events \<open>rest\<close> still to come. Then the vector behind \<open>locks\<close>
  after the whole attempt is \<open>lks'\<close> and \<open>quorum\<close> is computed from it; the drain phase
  dispatches a release for each reply of \<open>rest\<close> with \<open>locked = true\<close>, and nothing else;
  and no such late reply is marked in the vector. Nothing is assumed of the outcome: the
  attempt may have succeeded or failed.
\<close>

theorem grants_frozen_at_decision:
  assumes d: "lock_decision n cs nm 0 evs (replicate (nat n) False, []) = Inr (i, rest, lks', sent)"
    and n: "0 \<le> n" and cs: "length cs = nat n"
    and dist: "distinct (map index (replies evs))"
    and rng: "\<forall>g \<in> set (replies evs). index g < nat n"
  shows "lock n cs (replicate (nat n) False) nm evs
       = Inr (quorumMet n lks', lks',
              sent @ map (\<lambda>g. (cs ! index g, nm)) (filter locked (replies rest)))
     \<and> (\<forall>g \<in> set (replies rest). locked g \<longrightarrow> \<not> lks' ! index g)"
proof
  from decision_consumes [OF d] obtain used where u: "evs = used @ rest"
    by (elim exE conjE)
  have sub: "set (replies rest) \<subseteq> set (replies evs)" by (simp add: u replies_append)
  have many: "length (replies evs) \<le> nat n"
    using distinct_below [OF dist, of "nat n"] rng by simp
  have "\<forall>g \<in> set (replies rest). locked g \<longrightarrow> index g < length cs"
    using sub rng cs by auto
  from lock_after_decision [OF d n many this]
  show "lock n cs (replicate (nat n) False) nm evs
       = Inr (quorumMet n lks', lks',
              sent @ map (\<lambda>g. (cs ! index g, nm)) (filter locked (replies rest)))" .
  show "\<forall>g \<in> set (replies rest). locked g \<longrightarrow> \<not> lks' ! index g"
  proof (intro ballI impI)
    fix g assume g: "g \<in> set (replies rest)"
    with sub rng have "index g < nat n" by auto
    from late_not_granted [OF d dist g this] show "\<not> lks' ! index g" .
  qed
qed

theorem grants_frozen_at_decision_witness:
  "lock_decision 4 [Some (10::nat), Some 11, Some 12, Some 13] ''L'' 0
        [Reply \<lparr>index = 0, locked = True\<rparr>, Reply \<lparr>index = 1, locked = True\<rparr>,
         Reply \<lparr>index = 2, locked = True\<rparr>, Timeout, Reply \<lparr>index = 3, locked = True\<rparr>]
        (replicate (nat 4) False, [])
     = Inr (3, [Reply \<lparr>index = 3, locked = True\<rparr>], [True, True, True, False], [])
   \<and> lock 4 [Some (10::nat), Some 11, Some 12, Some 13] (replicate (nat 4) False) ''L''
        [Reply \<lparr>index = 0, locked = True\<rparr>, Reply \<lparr>index = 1, locked = True\<rparr>,
         Reply \<lparr>index = 2, locked = True\<rparr>, Timeout, Reply \<lparr>index = 3, locked = True\<rparr>]
     = Inr (True, [True, True, True, False], [(Some 13, ''L'')])
   \<and> \<not> [True, True, True, False] ! index \<lparr>index = 3, locked = True\<rparr>"
proof -
  have d: "lock_decision 4 [Some (10::nat), Some 11, Some 12, Some 13] ''L'' 0
        [Reply \<lparr>index = 0, locked = True\<rparr>, Reply \<lparr>index = 1, locked = True\<rparr>,
         Reply \<lparr>index = 2, locked = True\<rparr>, Timeout, Reply \<lparr>index = 3, locked = True\<rparr>]
        (replicate (nat 4) False, [])
     = Inr (3, [Reply \<lparr>index = 3, locked = True\<rparr>], [True, True, True, False], [])"
    by (simp add: on_timeout_def quorumMet_def signed_divide_int_def numeral_eq_Suc)
  have c: "length [Some (10::nat), Some 11, Some 12, Some 13] = nat 4" by simp
  have di: "distinct (map index (replies
        [Reply \<lparr>index = 0, locked = True\<rparr>, Reply \<lparr>index = 1, locked = True\<rparr>,
         Reply \<lparr>index = 2, locked = True\<rparr>, Timeout, Reply \<lparr>index = 3, locked = True\<rparr>]))"
    by simp
  have r: "\<forall>g \<in> set (replies
        [Reply \<lparr>index = 0, locked = True\<rparr>, Reply \<lparr>index = 1, locked = True\<rparr>,
         Reply \<lparr>index = 2, locked = True\<rparr>, Timeout, Reply \<lparr>index = 3, locked = True\<rparr>]).
          index g < nat 4"
    by simp
  from grants_frozen_at_decision [OF d _ c di r] d show ?thesis
    by (simp add: quorumMet_def)
qed

lemma lock_Inr:
  assumes "lock n cs lks nm evs = Inr (q, lks', sent')"
  obtains i rest sent where
    "lock_decision n cs nm 0 evs (lks, []) = Inr (i, rest, lks', sent)"
    "lock_drain n cs nm i (replies rest) sent = Inr sent'"
    "q = quorumMet n lks'" "\<not> n sdiv 2 + 1 < 0"
proof -
  from assms have c: "\<not> n sdiv 2 + 1 < 0" by (auto simp: lock_def split: if_splits)
  with assms obtain r where r: "lock_decision n cs nm 0 evs (lks, []) = Inr r"
    by (cases "lock_decision n cs nm 0 evs (lks, [])") (simp_all add: lock_def)
  obtain i rest l s where r': "r = (i, rest, l, s)" by (cases r)
  from assms c r r' obtain s' where s': "lock_drain n cs nm i (replies rest) s = Inr s'"
    by (cases "lock_drain n cs nm i (replies rest) s") (simp_all add: lock_def)
  from assms c r r' s' have "l = lks'" "s' = sent'" "q = quorumMet n lks'"
    by (auto simp: lock_def)
  with r r' s' c show ?thesis by (intro that [of i rest s]) simp_all
qed

lemma lock_releases_granted:
  assumes l: "lock n cs (replicate m False) nm evs = Inr (q, lks', sent')"
    and r: "r \<in> set sent'"
  shows "\<exists>j \<in> granted_by evs. r = (cs ! j, nm)"
proof -
  from l obtain i rest sent where
    d: "lock_decision n cs nm 0 evs (replicate m False, []) = Inr (i, rest, lks', sent)"
    and dr: "lock_drain n cs nm i (replies rest) sent = Inr sent'"
    by (rule lock_Inr)
  from decision_consumes [OF d, unfolded fst_conv snd_conv append_Nil] obtain used js where
    u: "evs = used @ rest" and s: "sent = map (\<lambda>j. (cs ! j, nm)) js"
    and js: "\<forall>j \<in> set js. j < length (replicate m False)
               \<and> (replicate m False ! j \<or> j \<in> granted_by used)"
    by (elim exE conjE) (rule that; assumption)
  have g: "granted_by used \<subseteq> granted_by evs" "granted_by rest \<subseteq> granted_by evs"
    by (simp_all add: u granted_by_append)
  from lock_drain_Inr [OF dr] s
  have "sent' = map (\<lambda>j. (cs ! j, nm)) js
     @ map (\<lambda>g. (cs ! index g, nm)) (filter locked (take (nat n - i) (replies rest)))"
    by simp
  with r consider (early) j where "j \<in> set js" "r = (cs ! j, nm)"
    | (late) g where "g \<in> set (take (nat n - i) (replies rest))" "locked g" "r = (cs ! index g, nm)"
    by auto
  then show ?thesis
  proof cases
    case early
    with js have "j \<in> granted_by used" by auto
    with g early show ?thesis by blast
  next
    case late
    from late(1) have "g \<in> set (replies rest)" by (rule in_set_takeD)
    with late(2) have "index g \<in> granted_by rest" by (auto simp: granted_by_def)
    with g late show ?thesis by blast
  qed
qed

lemma lock_marks_granted:
  assumes l: "lock n cs (replicate m False) nm evs = Inr (q, lks', sent')"
    and j: "j < length lks'" "lks' ! j"
  shows "j \<in> granted_by evs"
proof -
  from l obtain i rest sent where
    d: "lock_decision n cs nm 0 evs (replicate m False, []) = Inr (i, rest, lks', sent)"
    by (rule lock_Inr)
  from decision_length [OF d] have len: "length lks' = m" by simp
  from decision_consumes [OF d, unfolded fst_conv snd_conv] obtain used where
    u: "evs = used @ rest"
    and mk: "\<forall>j. lks' ! j \<longrightarrow> j < length lks' \<longrightarrow> replicate m False ! j \<or> j \<in> granted_by used"
    by (elim exE conjE) (rule that; assumption)
  from mk j len have "j \<in> granted_by used" by simp
  then show ?thesis by (simp add: u granted_by_append)
qed

text \<open>
  Claim C7. \<open>releaseAll\<close> dispatches exactly for the indices below \<open>n\<close> marked true in the
  grant vector, \<open>Unlock\<close> exactly for the indices of \<open>dm.clnts\<close> marked true in \<open>dm.locks\<close>,
  the drain phase exactly for the replies it receives with \<open>locked = true\<close>; and every
  release an attempt dispatches, in either phase, goes to the client of a peer from which a
  reply with \<open>locked = true\<close> was received, as does every entry the attempt leaves marked
  (the entries \<open>Unlock\<close> later releases).
\<close>

theorem releases_follow_grants:
  "(releaseAll n cs nm (lks, sent) = Inr (lks', sent') \<longrightarrow>
      sent' = sent @ map (\<lambda>j. (cs ! j, nm)) (filter (\<lambda>j. lks ! j) [0 ..< nat n]))
   \<and> (Unlock n dm = Inr (dm', usent) \<longrightarrow>
      usent = map (\<lambda>j. (clnts dm ! j, Name dm)) (filter (\<lambda>j. locks dm ! j) [0 ..< length (clnts dm)]))
   \<and> (lock_drain n cs nm i gs sent = Inr dsent \<longrightarrow>
      dsent = sent @ map (\<lambda>g. (cs ! index g, nm)) (filter locked (take (nat n - i) gs)))
   \<and> (lock n cs (replicate m False) nm evs = Inr (q, lks'', lsent) \<longrightarrow>
      (\<forall>r \<in> set lsent. \<exists>j \<in> granted_by evs. r = (cs ! j, nm))
      \<and> (\<forall>j < length lks''. lks'' ! j \<longrightarrow> j \<in> granted_by evs))"
proof (intro conjI impI)
  assume "releaseAll n cs nm (lks, sent) = Inr (lks', sent')"
  from releaseAll_Inr [OF this]
  show "sent' = sent @ map (\<lambda>j. (cs ! j, nm)) (filter (\<lambda>j. lks ! j) [0 ..< nat n])" by simp
next
  assume "Unlock n dm = Inr (dm', usent)"
  from Unlock_Inr [OF this]
  show "usent = map (\<lambda>j. (clnts dm ! j, Name dm)) (filter (\<lambda>j. locks dm ! j) [0 ..< length (clnts dm)])"
    by simp
next
  assume "lock_drain n cs nm i gs sent = Inr dsent"
  from lock_drain_Inr [OF this]
  show "dsent = sent @ map (\<lambda>g. (cs ! index g, nm)) (filter locked (take (nat n - i) gs))" .
next
  assume l: "lock n cs (replicate m False) nm evs = Inr (q, lks'', lsent)"
  show "\<forall>r \<in> set lsent. \<exists>j \<in> granted_by evs. r = (cs ! j, nm)"
    using lock_releases_granted [OF l] by blast
next
  assume l: "lock n cs (replicate m False) nm evs = Inr (q, lks'', lsent)"
  show "\<forall>j < length lks''. lks'' ! j \<longrightarrow> j \<in> granted_by evs"
    using lock_marks_granted [OF l] by blast
qed

theorem releases_follow_grants_witness:
  "releaseAll 4 [Some (10::nat), Some 11, Some 12, Some 13] ''L'' ([True, False, True, False], [])
     = Inr ([False, False, False, False], [(Some 10, ''L''), (Some 12, ''L'')])
   \<and> Unlock 4 \<lparr>Name = ''L'', locks = [True, True, True, False],
                 clnts = [Some (10::nat), Some 11, Some 12, Some 13]\<rparr>
       = Inr (\<lparr>Name = ''L'', locks = [False, False, False, False],
                clnts = [Some 10, Some 11, Some 12, Some 13]\<rparr>,
              [(Some 10, ''L''), (Some 11, ''L''), (Some 12, ''L'')])
   \<and> lock_drain 4 [Some (10::nat), Some 11, Some 12, Some 13] ''L'' 2
        [\<lparr>index = 3, locked = True\<rparr>, \<lparr>index = 1, locked = False\<rparr>] []
       = Inr [(Some 13, ''L'')]
   \<and> lock 4 [Some (10::nat), Some 11, Some 12, Some 13] (replicate 4 False) ''L''
        [Reply \<lparr>index = 0, locked = True\<rparr>, Reply \<lparr>index = 1, locked = True\<rparr>,
         Reply \<lparr>index = 2, locked = True\<rparr>, Timeout, Reply \<lparr>index = 3, locked = True\<rparr>]
       = Inr (True, [True, True, True, False], [(Some 13, ''L'')])
   \<and> 3 \<in> granted_by
        [Reply \<lparr>index = 0, locked = True\<rparr>, Reply \<lparr>index = 1, locked = True\<rparr>,
         Reply \<lparr>index = 2, locked = True\<rparr>, Timeout, Reply \<lparr>index = 3, locked = True\<rparr>]"
  using releases_follow_grants [of 4 "[Some (10::nat), Some 11, Some 12, Some 13]" "''L''"
      "[True, False, True, False]" "[]" "[False, False, False, False]"
      "[(Some 10, ''L''), (Some 12, ''L'')]"
      "\<lparr>Name = ''L'', locks = [True, True, True, False],
                 clnts = [Some (10::nat), Some 11, Some 12, Some 13]\<rparr>"
      "\<lparr>Name = ''L'', locks = [False, False, False, False],
                clnts = [Some 10, Some 11, Some 12, Some 13]\<rparr>"
      "[(Some 10, ''L''), (Some 11, ''L''), (Some 12, ''L'')]"
      2 "[\<lparr>index = 3, locked = True\<rparr>, \<lparr>index = 1, locked = False\<rparr>]" "[(Some 13, ''L'')]"
      4 "[Reply \<lparr>index = 0, locked = True\<rparr>, Reply \<lparr>index = 1, locked = True\<rparr>,
         Reply \<lparr>index = 2, locked = True\<rparr>, Timeout, Reply \<lparr>index = 3, locked = True\<rparr>]"
      True "[True, True, True, False]" "[(Some 13, ''L'')]"]
  by (simp add: releaseAll_def Unlock_def DMutex_locked_def copy_def lock_def on_timeout_def
      quorumMet_def signed_divide_int_def numeral_eq_Suc)

section \<open>Lock\<close>

lemma connectLazy_loop_length:
  "connectLazy_loop d nodes is cs = Inr cs' \<Longrightarrow> length cs' = length cs"
  by (induction "is" arbitrary: cs) (auto split: if_splits)

lemma connectLazy_Inr:
  assumes "connectLazy n nodes d dm = Inr dm1"
  shows "Name dm1 = Name dm \<and> locks dm1 = locks dm
     \<and> length (clnts dm1) = (if clnts dm = [] then nat n else length (clnts dm))"
proof -
  let ?cs = "if clnts dm = [] then replicate (nat n) None else clnts dm"
  from assms obtain cs' where
    c: "connectLazy_loop d nodes [0 ..< length ?cs] ?cs = Inr cs'" and dm1: "dm1 = dm\<lparr>clnts := cs'\<rparr>"
    by (auto simp: connectLazy_def Let_def split: if_splits sum.splits)
  from connectLazy_loop_length [OF c] dm1 show ?thesis by (simp split: if_splits)
qed

lemma copy_same_length: "length src = length dst \<Longrightarrow> copy dst src = src"
  by (simp add: copy_def)

lemma lock_result:
  assumes "lock n cs lks nm evs = Inr (q, lks', sent)"
  shows "q = quorumMet n lks' \<and> length lks' = length lks"
proof -
  from assms obtain i rest s where
    d: "lock_decision n cs nm 0 evs (lks, []) = Inr (i, rest, lks', s)"
    and q: "q = quorumMet n lks'"
    by (rule lock_Inr)
  from decision_length [OF d] q show ?thesis by simp
qed

lemma Lock_loop_step:
  assumes "final (Lock_loop n nodes (a # script) runs backOff dm sl rel) = Some (Inr dm')"
  shows "\<exists>dm1. connectLazy n nodes (dial a) dm = Inr dm1 \<and> 0 \<le> n
     \<and> ((\<exists>lks sent. lock n (clnts dm1) (replicate (nat n) False) (Name dm1) (events a)
                        = Inr (True, lks, sent)
            \<and> dm' = dm1\<lparr>locks := copy (replicate (nat n) False) lks\<rparr>)
         \<or> (\<exists>runs' backOff' sl' rel'.
               final (Lock_loop n nodes script runs' backOff' dm1 sl' rel') = Some (Inr dm')))"
proof (cases "connectLazy n nodes (dial a) dm")
  case (Inl e)
  with assms show ?thesis by simp
next
  case (Inr dm1)
  show ?thesis
  proof (cases "n < 0")
    case True
    with assms Inr show ?thesis by simp
  next
    case n: False
    show ?thesis
    proof (cases "lock n (clnts dm1) (replicate (nat n) False) (Name dm1) (events a)")
      case (Inl e)
      with assms Inr n show ?thesis by simp
    next
      case r: (Inr res)
      obtain success lks sent where res: "res = (success, lks, sent)" by (cases res)
      show ?thesis
      proof (cases success)
        case True
        with assms Inr n r res show ?thesis by auto
      next
        case False
        with assms Inr n r res have
          "\<exists>runs' backOff' sl' rel'.
               final (Lock_loop n nodes script runs' backOff' dm1 sl' rel') = Some (Inr dm')"
          by (simp add: Let_def split: if_splits) blast+
        with Inr n show ?thesis by simp
      qed
    qed
  qed
qed

lemma Lock_loop_returned:
  assumes "final (Lock_loop n nodes script runs backOff dm sl rel) = Some (Inr dm')"
  shows "0 \<le> n \<and> Name dm' = Name dm \<and> length (locks dm') = nat n
     \<and> quorumMet n (locks dm')
     \<and> (\<exists>a \<in> set script. \<exists>sent.
           lock n (clnts dm') (replicate (nat n) False) (Name dm) (events a) = Inr (True, locks dm', sent))"
  using assms
proof (induction script arbitrary: runs backOff dm sl rel)
  case Nil
  then show ?case by simp
next
  case (Cons a script)
  from Lock_loop_step [OF Cons.prems] obtain dm1 where
    c: "connectLazy n nodes (dial a) dm = Inr dm1" and n: "0 \<le> n"
    and alt: "(\<exists>lks sent. lock n (clnts dm1) (replicate (nat n) False) (Name dm1) (events a)
                        = Inr (True, lks, sent)
            \<and> dm' = dm1\<lparr>locks := copy (replicate (nat n) False) lks\<rparr>)
         \<or> (\<exists>runs' backOff' sl' rel'.
               final (Lock_loop n nodes script runs' backOff' dm1 sl' rel') = Some (Inr dm'))"
    by blast
  from connectLazy_Inr [OF c] have nm: "Name dm1 = Name dm" by simp
  from alt show ?case
  proof
    assume "\<exists>lks sent. lock n (clnts dm1) (replicate (nat n) False) (Name dm1) (events a)
                        = Inr (True, lks, sent)
            \<and> dm' = dm1\<lparr>locks := copy (replicate (nat n) False) lks\<rparr>"
    then obtain lks sent where
      l: "lock n (clnts dm1) (replicate (nat n) False) (Name dm1) (events a) = Inr (True, lks, sent)"
      and dm': "dm' = dm1\<lparr>locks := copy (replicate (nat n) False) lks\<rparr>" by blast
    from lock_result [OF l] have q: "quorumMet n lks" and len: "length lks = nat n" by simp_all
    from len have cp: "copy (replicate (nat n) False) lks = lks" by (simp add: copy_same_length)
    have "lock n (clnts dm') (replicate (nat n) False) (Name dm) (events a)
            = Inr (True, locks dm', sent)"
      using l nm dm' cp by simp
    then have "\<exists>sent.
           lock n (clnts dm') (replicate (nat n) False) (Name dm) (events a) = Inr (True, locks dm', sent)"
      by blast
    then have "\<exists>a' \<in> set (a # script). \<exists>sent.
           lock n (clnts dm') (replicate (nat n) False) (Name dm) (events a') = Inr (True, locks dm', sent)"
      by (rule bexI [of _ a]) simp
    with n nm q len dm' cp show ?thesis by simp
  next
    assume "\<exists>runs' backOff' sl' rel'.
               final (Lock_loop n nodes script runs' backOff' dm1 sl' rel') = Some (Inr dm')"
    then obtain runs' backOff' sl' rel' where
      "final (Lock_loop n nodes script runs' backOff' dm1 sl' rel') = Some (Inr dm')" by blast
    from Cons.IH [OF this] nm show ?thesis by auto
  qed
qed

lemma Lock_loop_clnts:
  assumes "final (Lock_loop n nodes script runs backOff dm sl rel) = Some (Inr dm')"
    and "clnts dm = [] \<or> length (clnts dm) = nat n"
  shows "length (clnts dm') = nat n"
  using assms
proof (induction script arbitrary: runs backOff dm sl rel)
  case Nil
  then show ?case by simp
next
  case (Cons a script)
  from Lock_loop_step [OF Cons.prems(1)] obtain dm1 where
    c: "connectLazy n nodes (dial a) dm = Inr dm1"
    and alt: "(\<exists>lks sent. lock n (clnts dm1) (replicate (nat n) False) (Name dm1) (events a)
                        = Inr (True, lks, sent)
            \<and> dm' = dm1\<lparr>locks := copy (replicate (nat n) False) lks\<rparr>)
         \<or> (\<exists>runs' backOff' sl' rel'.
               final (Lock_loop n nodes script runs' backOff' dm1 sl' rel') = Some (Inr dm'))"
    by blast
  from connectLazy_Inr [OF c] Cons.prems(2) have len: "length (clnts dm1) = nat n"
    by (auto split: if_splits)
  from alt show ?case
  proof
    assume "\<exists>lks sent. lock n (clnts dm1) (replicate (nat n) False) (Name dm1) (events a)
                        = Inr (True, lks, sent)
            \<and> dm' = dm1\<lparr>locks := copy (replicate (nat n) False) lks\<rparr>"
    with len show ?thesis by auto
  next
    assume "\<exists>runs' backOff' sl' rel'.
               final (Lock_loop n nodes script runs' backOff' dm1 sl' rel') = Some (Inr dm')"
    then obtain runs' backOff' sl' rel' where
      f: "final (Lock_loop n nodes script runs' backOff' dm1 sl' rel') = Some (Inr dm')" by blast
    from len have "clnts dm1 = [] \<or> length (clnts dm1) = nat n" by simp
    from Cons.IH [OF f this] show ?thesis .
  qed
qed

lemma Lock_ok:
  assumes "DMutex_ok n dm" and "final (Lock n nodes script dm) = Some (Inr dm')"
  shows "DMutex_ok n dm'"
proof -
  from assms(1) have "clnts dm = [] \<or> length (clnts dm) = nat n" by (auto simp: DMutex_ok_def)
  from Lock_loop_clnts [OF assms(2) [unfolded Lock_def] this]
  have c: "length (clnts dm') = nat n" .
  from Lock_loop_returned [OF assms(2) [unfolded Lock_def]]
  have l: "length (locks dm') = nat n" by (elim conjE)
  from c l show ?thesis by (simp add: DMutex_ok_def)
qed

text \<open>
  Claim C1. When \<open>Lock\<close> returns, at least \<open>\<lfloor>n/2\<rfloor> + 1\<close> entries of \<open>dm.locks\<close> are true:
  one of the attempts of the script returned true on a fresh grant vector, and the vector
  it left is the one stored in \<open>dm.locks\<close>.
\<close>

theorem Lock_returns_with_quorum:
  assumes "final (Lock n nodes script dm) = Some (Inr dm')"
  shows "n div 2 + 1 \<le> int (count_list (locks dm') True)
     \<and> (\<exists>a \<in> set script. \<exists>sent.
           lock n (clnts dm') (replicate (nat n) False) (Name dm) (events a) = Inr (True, locks dm', sent))"
proof -
  note r = Lock_loop_returned [OF assms [unfolded Lock_def]]
  from r have n: "0 \<le> n" by (elim conjE)
  from r have q: "quorumMet n (locks dm')" by (elim conjE)
  from r have a: "\<exists>a \<in> set script. \<exists>sent.
           lock n (clnts dm') (replicate (nat n) False) (Name dm) (events a) = Inr (True, locks dm', sent)"
    by (elim conjE)
  from n q have "n div 2 + 1 \<le> int (count_list (locks dm') True)"
    by (simp add: quorumMet_count sdiv_two_nonneg)
  then show ?thesis using a by (rule conjI)
qed

theorem Lock_returns_with_quorum_witness:
  "final (Lock 4 [''a'', ''b'', ''c'', ''d'']
        [refused,
         \<lparr>dial = dial_slot,
          events = [Reply \<lparr>index = 0, locked = True\<rparr>, Reply \<lparr>index = 1, locked = True\<rparr>,
                    Reply \<lparr>index = 2, locked = True\<rparr>, Timeout,
                    Reply \<lparr>index = 3, locked = True\<rparr>],
          draw = 0\<rparr>]
        (newDMutex ''L''))
     = Some (Inr \<lparr>Name = ''L'', locks = [True, True, True, False],
                  clnts = [Some 0, Some 1, Some 2, Some 3]\<rparr>)
   \<and> (4::int) div 2 + 1 \<le> int (count_list [True, True, True, False] True)"
proof -
  have f: "final (Lock 4 [''a'', ''b'', ''c'', ''d'']
        [refused,
         \<lparr>dial = dial_slot,
          events = [Reply \<lparr>index = 0, locked = True\<rparr>, Reply \<lparr>index = 1, locked = True\<rparr>,
                    Reply \<lparr>index = 2, locked = True\<rparr>, Timeout,
                    Reply \<lparr>index = 3, locked = True\<rparr>],
          draw = 0\<rparr>]
        (newDMutex ''L''))
     = Some (Inr \<lparr>Name = ''L'', locks = [True, True, True, False],
                  clnts = [Some 0, Some 1, Some 2, Some 3]\<rparr>)"
    by (simp add: Lock_def refused_def dial_slot_def newDMutex_def connectLazy_def lock_def
        releaseAll_def on_timeout_def quorumMet_def copy_def int_of_float64_def
        signed_divide_int_def numeral_eq_Suc)
  from Lock_returns_with_quorum [OF f] f show ?thesis by simp
qed

section \<open>hasLock\<close>

lemma hasLock_loop_absent:
  "node \<notin> set nodes \<Longrightarrow> hasLock_loop (enumerate m nodes) lks node = Inr False"
  by (induction nodes arbitrary: m) auto

lemma hasLock_loop_first:
  "k < length nodes \<Longrightarrow> nodes ! k = node \<Longrightarrow> \<forall>j < k. nodes ! j \<noteq> node \<Longrightarrow>
     hasLock_loop (enumerate m nodes) lks node
       = (if m + k < length lks then Inr (lks ! (m + k)) else Inl IndexOutOfRange)"
proof (induction nodes arbitrary: m k)
  case Nil
  then show ?case by simp
next
  case (Cons a nodes)
  show ?case
  proof (cases k)
    case 0
    with Cons.prems show ?thesis by simp
  next
    case (Suc k')
    with Cons.prems have ne: "a \<noteq> node" by auto
    from Cons.prems Suc have "k' < length nodes" "nodes ! k' = node" "\<forall>j < k'. nodes ! j \<noteq> node"
      by auto
    from Cons.IH [OF this, of "Suc m"] ne Suc show ?thesis by simp
  qed
qed

text \<open>
  Where \<open>dm.locks\<close> holds an entry at the first index \<open>k\<close> whose configured address equals
  the argument, \<open>hasLock\<close> returns that entry; where it holds none, the index expression
  \<open>dm.locks[index]\<close> is out of range.
\<close>

lemma hasLock_first_index:
  "(node \<notin> set nodes \<longrightarrow> hasLock nodes dm node = Inr False)
   \<and> (k < length nodes \<and> nodes ! k = node \<and> (\<forall>j < k. nodes ! j \<noteq> node) \<longrightarrow>
        hasLock nodes dm node
          = (if k < length (locks dm) then Inr (locks dm ! k) else Inl IndexOutOfRange))"
  using hasLock_loop_first [of k nodes node 0 "locks dm"]
  by (simp add: hasLock_def hasLock_loop_absent)

text \<open>
  Claim C10. \<open>hasLock\<close> is documented to return whether or not a node participated in
  granting the lock: false for an address that is not configured, the grant flag of the
  first peer with that address otherwise. On a mutex that was never locked no peer has
  granted, and the sibling \<open>locked\<close> reads such a mutex as \<open>n\<close> false flags; \<open>hasLock\<close>
  indexes the nil \<open>dm.locks\<close> instead and panics for a configured address:
\<close>

theorem hasLock_never_locked_panics:
  "hasLock [''a''] (newDMutex ''L'' :: nat DMutex) ''a'' = Inl IndexOutOfRange"
  by (simp add: hasLock_def newDMutex_def)

section \<open>The back-off of Lock\<close>

lemma smod_nonneg: "0 \<le> (k::int) \<Longrightarrow> k smod 64 = k mod 64"
  by (simp add: signed_modulo_int_def sgn_if)

lemma refused_sleeps:
  "slept (Lock 1 [''a''] (replicate 12 refused) (newDMutex ''L''))
     = [1, 2, 4, 8, 16, 32, 64, 128, 256, 512, 1024, 0]"
  by (simp add: Lock_def refused_def dial_slot_def newDMutex_def connectLazy_def lock_def
      releaseAll_def quorumMet_def int_of_float64_def signed_divide_int_def
      signed_modulo_int_def numeral_eq_Suc)

text \<open>
  Claim C6 says that every sleep lies in \<open>[1, 1024]\<close> milliseconds. After \<open>backOff\<close> exceeds
  1024 it becomes \<open>backOff % 64\<close>, which is 0 for a multiple of 64: when every attempt fails
  and every draw is \<open>1/2\<close>, the twelfth sleep is \<open>time.Sleep(0)\<close>.
\<close>

theorem backOff_zero_counterexample:
  "slept (Lock 1 [''a''] (replicate 12 refused) (newDMutex ''L''))
     = [1, 2, 4, 8, 16, 32, 64, 128, 256, 512, 1024, 0]"
  by (rule refused_sleeps)

lemma increment_bounds:
  assumes "0 \<le> u" "u < 1"
  shows "0 \<le> int_of_float64 (u * 2 ^ runs) \<and> int_of_float64 (u * 2 ^ runs) < 2 ^ runs"
proof -
  have nn: "0 \<le> u * 2 ^ runs" using assms(1) by simp
  have "u * 2 ^ runs < 1 * 2 ^ runs" using assms(2) by (intro mult_strict_right_mono) simp_all
  then have "u * 2 ^ runs < real_of_int (2 ^ runs)" by simp
  then have "\<lfloor>u * 2 ^ runs\<rfloor> < 2 ^ runs" by (simp only: floor_less_iff)
  moreover have "0 \<le> \<lfloor>u * 2 ^ runs\<rfloor>" using nn by simp
  ultimately show ?thesis using nn by (simp add: int_of_float64_def)
qed

lemma power_two_runs: "runs \<le> 10 \<Longrightarrow> (2::int) ^ runs \<le> 1024"
  using power_increasing [of runs 10 "2::int"] by simp

lemma Lock_loop_sleeps:
  assumes "\<forall>a \<in> set script. 0 \<le> draw a \<and> draw a < 1"
    and "\<forall>d \<in> set sl. 0 \<le> d \<and> d \<le> 1024" and "0 \<le> backOff" and "backOff \<le> 1024" and "runs \<le> 10"
  shows "\<forall>d \<in> set (slept (Lock_loop n nodes script runs backOff dm sl rel)). 0 \<le> d \<and> d \<le> 1024"
  using assms
proof (induction script arbitrary: runs backOff dm sl rel)
  case Nil
  then show ?case by simp
next
  case (Cons a script)
  let ?inc = "int_of_float64 (draw a * 2 ^ runs)"
  let ?b = "backOff + ?inc"
  from Cons.prems(1) have u: "0 \<le> draw a" "draw a < 1" by simp_all
  from increment_bounds [OF u, of runs] power_two_runs [OF Cons.prems(5)]
  have inc: "0 \<le> ?inc" "?inc < 1024" by simp_all
  have sl': "\<forall>d \<in> set (sl @ [backOff]). 0 \<le> d \<and> d \<le> 1024"
    using Cons.prems(2,3,4) by simp
  have rest: "\<forall>a \<in> set script. 0 \<le> draw a \<and> draw a < 1" using Cons.prems(1) by simp
  have b0: "0 \<le> ?b" using inc Cons.prems(3) by simp
  have m: "0 \<le> ?b smod 64" "?b smod 64 \<le> 1024"
    using b0 by (simp_all add: smod_nonneg)
  have r1: "(1::nat) \<le> 10" by simp
  note ih = Cons.IH [OF rest sl']
  show ?case
  proof (cases "connectLazy n nodes (dial a) dm")
    case (Inl e)
    then show ?thesis using Cons.prems(2) by simp
  next
    case (Inr dm1)
    show ?thesis
    proof (cases "n < 0")
      case True
      with Inr show ?thesis using Cons.prems(2) by simp
    next
      case False
      show ?thesis
      proof (cases "lock n (clnts dm1) (replicate (nat n) False) (Name dm1) (events a)")
        case (Inl e)
        with Inr False show ?thesis using Cons.prems(2) by simp
      next
        case r: (Inr res)
        obtain success lks sent where res: "res = (success, lks, sent)" by (cases res)
        show ?thesis
        proof (cases success)
          case True
          with Inr False r res show ?thesis using Cons.prems(2) by simp
        next
          case nosucc: False
          show ?thesis
          proof (cases "?b > 1024")
            case True
            with Inr False r res nosucc ih [OF m r1, of dm1 "rel @ sent"] show ?thesis
              by (simp add: Let_def)
          next
            case le: False
            then have b: "?b \<le> 1024" by simp
            show ?thesis
            proof (cases "runs < 10")
              case True
              then have "runs + 1 \<le> 10" by simp
              from ih [OF b0 b this, of dm1 "rel @ sent"] Inr False r res nosucc le True
              show ?thesis by (simp add: Let_def)
            next
              case f: False
              from ih [OF b0 b Cons.prems(5), of dm1 "rel @ sent"] Inr False r res nosucc le f
              show ?thesis by (simp add: Let_def)
            qed
          qed
        qed
      qed
    qed
  qed
qed

text \<open>
  Claim C6, amended. For every script of attempts whose draws lie in \<open>[0, 1)\<close>, whatever the
  outcome of \<open>Lock\<close> (returned, panicked or still retrying), every duration passed to
  \<open>time.Sleep\<close> lies in \<open>[0, 1024]\<close> milliseconds.
\<close>

theorem backOff_sleep_bounds:
  assumes "\<forall>a \<in> set script. 0 \<le> draw a \<and> draw a < 1"
  shows "\<forall>d \<in> set (slept (Lock n nodes script dm)). 0 \<le> d \<and> d \<le> 1024"
  unfolding Lock_def using assms by (intro Lock_loop_sleeps) simp_all

theorem backOff_sleep_bounds_witness:
  "0 \<le> draw refused \<and> draw refused < 1
   \<and> 0 \<le> slept (Lock 1 [''a''] (replicate 12 refused) (newDMutex ''L'')) ! 11
   \<and> slept (Lock 1 [''a''] (replicate 12 refused) (newDMutex ''L'')) ! 11 \<le> 1024"
  using backOff_sleep_bounds [of "replicate 12 refused" 1 "[''a'']" "newDMutex ''L''"]
  by (simp add: refused_sleeps) (simp add: refused_def)

end
